theory Spec2Isabelle
  imports Main "HOL-Library.Sublist"
begin

section \<open>The capture stage of the catalog scraper (\<^verbatim>\<open>scrape_nara.js\<close>)\<close>

text \<open>
  The script drives a browser through calls whose outcome the program cannot decide: a
  call either returns or throws. The outcomes are therefore the input of the model (an
  environment record, one field per call site), the program state is passed explicitly,
  and an exception is a value: a computation maps a state to a result \<open>error + 'a\<close>
  (\<open>Inl\<close> is the thrown error) and the state reached.
\<close>

subsection \<open>Data\<close>

text \<open>A JavaScript exception; \<open>e.message\<close> is all the script ever reads of one.\<close>

datatype error = Error string

fun message :: "error \<Rightarrow> string" where
  "message (Error m) = m"

text \<open>\<open>{ page: i, imageUrl, transcription }\<close>; \<open>imageUrl\<close> is a string or \<open>null\<close>.\<close>

record page_result =
  page :: nat
  imageUrl :: "string option"
  transcription :: string

text \<open>\<open>{ url, data }\<close>; the parsed body is never inspected, so its type is a parameter.\<close>

record 'd captured =
  url :: string
  data :: 'd

text \<open>The object returned by the first \<open>page.evaluate\<close> (lines 72-85).\<close>

record item_data =
  downloadLink :: "string option"
  pageCount :: nat
  thumbCount :: nat

text \<open>One constructor per \<open>console.log\<close> / \<open>console.error\<close> call site of the script.\<close>

datatype log_line =
    LogLaunching                     \<comment> \<open>line 32\<close>
  | LogNavigating                    \<comment> \<open>line 62\<close>
  | LogWaiting                       \<comment> \<open>line 68\<close>
  | LogItemData item_data            \<comment> \<open>line 87\<close>
  | LogProcessing nat                \<comment> \<open>line 96: Processing page i of 14...\<close>
  | LogNoTranscription nat           \<comment> \<open>line 156: Could not get transcription for page i\<close>
  | LogImageUrl nat string           \<comment> \<open>line 165: Page i: Image URL: ...\<close>
  | LogTranscription nat string      \<comment> \<open>line 166: Page i: Transcription: ...\<close>
  | LogPageError nat string          \<comment> \<open>line 169: Error processing page i: message\<close>
  | LogApiHeader                     \<comment> \<open>line 173\<close>
  | LogCaptured nat                  \<comment> \<open>line 174: Captured n API responses\<close>
  | LogClosed                        \<comment> \<open>line 183\<close>
  | LogConsoleError error            \<comment> \<open>line 186: console.error as rejection handler\<close>

text \<open>
  A file holds \<open>JSON.stringify\<close> of one of the two arrays; the text is determined by the
  array, which stands for it here.
\<close>

datatype 'd file_content =
    ApiResponsesJson "'d captured list"
  | ResultsJson "page_result list"

datatype browser_status = NotLaunched | Open | Closed

text \<open>
  Everything the script can change. \<open>awaiting\<close> holds the invocations of the response
  listener that are suspended at \<open>await response.json()\<close>, each with the URL it read;
  \<open>unhandled\<close> collects what no handler caught (an uncaught exception or an unhandled
  rejection), which is what makes the exit status of the process non-zero.
\<close>

record 'd state =
  console :: "log_line list"
  dirs :: "string set"
  files :: "string \<rightharpoonup> 'd file_content"
  browser :: browser_status
  apiResponses :: "'d captured list"
  awaiting :: "(nat \<times> string) list"
  results :: "page_result list"
  unhandled :: "error list"

subsection \<open>Computations that may throw\<close>

type_synonym ('a, 'd) prog = "'d state \<Rightarrow> (error + 'a) \<times> 'd state"

definition ret :: "'a \<Rightarrow> ('a, 'd) prog" where
  "ret x = (\<lambda>s. (Inr x, s))"

definition throw :: "error \<Rightarrow> ('a, 'd) prog" where
  "throw e = (\<lambda>s. (Inl e, s))"

text \<open>Sequencing: a throw of the first part skips the rest.\<close>

definition bnd :: "('a, 'd) prog \<Rightarrow> ('a \<Rightarrow> ('b, 'd) prog) \<Rightarrow> ('b, 'd) prog" where
  "bnd m f = (\<lambda>s. case m s of (Inl e, s') \<Rightarrow> (Inl e, s') | (Inr x, s') \<Rightarrow> f x s')"

text \<open>\<open>try { m } catch (e) { h e }\<close>.\<close>

definition try_catch :: "('a, 'd) prog \<Rightarrow> (error \<Rightarrow> ('a, 'd) prog) \<Rightarrow> ('a, 'd) prog" where
  "try_catch m h = (\<lambda>s. case m s of (Inl e, s') \<Rightarrow> h e s' | (Inr x, s') \<Rightarrow> (Inr x, s'))"

text \<open>\<open>await p\<close> for a promise whose settlement the environment gives.\<close>

definition await :: "error + 'a \<Rightarrow> ('a, 'd) prog" where
  "await r = (\<lambda>s. (r, s))"

text \<open>The same for a promise without a value, and for a synchronous call that may throw.\<close>

definition attempt :: "error option \<Rightarrow> (unit, 'd) prog" where
  "attempt r = (case r of None \<Rightarrow> ret () | Some e \<Rightarrow> throw e)"

definition modify :: "('d state \<Rightarrow> 'd state) \<Rightarrow> (unit, 'd) prog" where
  "modify f = (\<lambda>s. (Inr (), f s))"

definition log :: "log_line \<Rightarrow> (unit, 'd) prog" where
  "log l = modify (\<lambda>s. s\<lparr>console := console s @ [l]\<rparr>)"

text \<open>
  A promise nobody awaits (an async listener's return value, or the promise at the end
  of the script): a rejection is reported by the runtime as unhandled.
\<close>

definition detached :: "(unit, 'd) prog \<Rightarrow> 'd state \<Rightarrow> 'd state" where
  "detached m s =
     (case m s of
        (Inl e, s') \<Rightarrow> s'\<lparr>unhandled := unhandled s' @ [e]\<rparr>
      | (Inr _, s') \<Rightarrow> s')"

subsection \<open>The response listener (lines 50-60)\<close>

text \<open>\<open>s.includes(sub)\<close>: \<open>sub\<close> occurs in \<open>s\<close> as a contiguous substring.\<close>

definition str_includes :: "string \<Rightarrow> string \<Rightarrow> bool" where
  "str_includes s sub = sublist sub s"

definition matches :: "string \<Rightarrow> bool" where
  "matches u \<longleftrightarrow>
     str_includes u ''/records/'' \<or> str_includes u ''/transcription'' \<or>
     str_includes u ''/contributions''"

text \<open>
  The listener is asynchronous: an invocation reads the URL, and for a matching URL
  suspends at \<open>await response.json()\<close>; it resumes when that promise settles. What the
  network does is a trace of events: \<open>Response k u\<close>, response number \<open>k\<close> with URL \<open>u\<close>
  is dispatched to the listener; \<open>Json k r\<close>, the body promise of response \<open>k\<close> settles
  with \<open>r\<close> (\<open>Inl\<close>: the body is not JSON).
\<close>

datatype 'd event =
    Response nat string
  | Json nat "error + 'd"

text \<open>Lines 53-58, from the point where \<open>response.json()\<close> has settled with \<open>r\<close>.\<close>

definition resume :: "string \<Rightarrow> error + 'd \<Rightarrow> (unit, 'd) prog" where
  "resume u r =
     try_catch
       (bnd (await r) (\<lambda>d.
        modify (\<lambda>s. s\<lparr>apiResponses := apiResponses s @ [\<lparr>url = u, data = d\<rparr>]\<rparr>)))
       (\<lambda>e. ret ())"

fun on_event :: "'d event \<Rightarrow> 'd state \<Rightarrow> 'd state" where
  "on_event (Response k u) s =
     (if matches u then s\<lparr>awaiting := awaiting s @ [(k, u)]\<rparr> else s)"
| "on_event (Json k r) s =
     (case map_of (awaiting s) k of
        None \<Rightarrow> s
      | Some u \<Rightarrow>
          detached (resume u r) (s\<lparr>awaiting := filter (\<lambda>p. fst p \<noteq> k) (awaiting s)\<rparr>))"

definition deliver :: "'d event list \<Rightarrow> 'd state \<Rightarrow> 'd state" where
  "deliver evs s = foldl (\<lambda>s ev. on_event ev s) s evs"

subsection \<open>One iteration of the page loop (lines 96-170)\<close>

text \<open>
  What the browser answers while page \<open>i\<close> is processed, one field per awaited call:
  \<open>page.waitForSelector\<close> (line 101), the click (lines 104-119, its value \<open>clicked\<close>
  is never used), the image URL read (lines 124-132), the search for the transcription
  tab (lines 137-146) and the read of the transcription text (lines 150-153). The
  pauses (\<open>setTimeout\<close>) cannot fail and leave no trace.
\<close>

record page_env =
  waitForSelector_r :: "error option"
  click_r :: "error + bool"
  imageUrl_r :: "error + string option"
  hasTranscriptionTab_r :: "error + bool"
  transcription_r :: "error + string"

text \<open>The two ternaries of lines 165-166; a null and an empty string are both falsy.\<close>

definition image_text :: "string option \<Rightarrow> string" where
  "image_text u = (if u \<noteq> None \<and> u \<noteq> Some [] then ''Found'' else ''Not found'')"

definition transcription_text :: "string \<Rightarrow> string" where
  "transcription_text t = (if t \<noteq> [] then take 100 t @ ''...'' else ''Not found'')"

text \<open>
  Lines 135-157. The local \<open>transcription\<close> starts as the empty string and is assigned
  only when the tab was found and the read returned; the catch block logs and leaves
  it as it is.
\<close>

definition get_transcription :: "page_env \<Rightarrow> nat \<Rightarrow> (string, 'd) prog" where
  "get_transcription p i =
     try_catch
       (bnd (await (hasTranscriptionTab_r p)) (\<lambda>hasTranscriptionTab.
        if hasTranscriptionTab then await (transcription_r p) else ret []))
       (\<lambda>e. bnd (log (LogNoTranscription i)) (\<lambda>_. ret []))"

definition process_page :: "page_env \<Rightarrow> nat \<Rightarrow> (unit, 'd) prog" where
  "process_page p i =
     bnd (log (LogProcessing i)) (\<lambda>_.
     try_catch
       (bnd (attempt (waitForSelector_r p)) (\<lambda>_.
        bnd (await (click_r p)) (\<lambda>clicked.
        bnd (await (imageUrl_r p)) (\<lambda>u.
        bnd (get_transcription p i) (\<lambda>t.
        bnd (modify (\<lambda>s. s\<lparr>results := results s @
                 [\<lparr>page = i, imageUrl = u, transcription = t\<rparr>]\<rparr>)) (\<lambda>_.
        bnd (log (LogImageUrl i (image_text u))) (\<lambda>_.
        log (LogTranscription i (transcription_text t)))))))))
       (\<lambda>e. log (LogPageError i (message e))))"

subsection \<open>The run (lines 31-184)\<close>

text \<open>
  The outcome of every other call of the run. \<open>network\<close> is the trace of events that
  reach the response listener before the capture sequence is first read (line 174).
  The listener runs at the suspension points of lines 63-171 and touches only
  \<open>apiResponses\<close>, which the main flow does not read before line 174, so the trace is
  run there.
\<close>

record 'd env =
  mkdir_r :: "string \<Rightarrow> error option"
  launch_r :: "error option"
  newPage_r :: "error option"
  setViewport_r :: "error option"
  setRequestInterception_r :: "error option"
  goto_r :: "error option"
  itemData_r :: "error + string option \<times> nat"
  pages_r :: "nat \<Rightarrow> page_env"
  network :: "'d event list"
  writeApi_r :: "error option"
  writeResults_r :: "error option"
  close_r :: "error option"

text \<open>\<open>for (let i = 1; i <= 14; i++)\<close>, from the test of the condition at \<open>i\<close>.\<close>

function page_loop :: "'d env \<Rightarrow> nat \<Rightarrow> (unit, 'd) prog" where
  "page_loop env i =
     (if i \<le> 14 then bnd (process_page (pages_r env i) i) (\<lambda>_. page_loop env (Suc i))
      else ret ())"
  by pat_completeness auto
termination
  by (relation "measure (\<lambda>(env, i). 15 - i)") auto

declare page_loop.simps [simp del]

definition writeFileSync ::
  "error option \<Rightarrow> string \<Rightarrow> 'd file_content \<Rightarrow> (unit, 'd) prog" where
  "writeFileSync r name c =
     bnd (attempt r) (\<lambda>_. modify (\<lambda>s. s\<lparr>files := (files s)(name \<mapsto> c)\<rparr>))"

text \<open>
  The body of \<open>scrapeNARA\<close>, one step per statement and in the order of the source:
  the log of line 32; \<open>puppeteer.launch\<close> (33), after which there is a browser;
  \<open>newPage\<close> (38), \<open>setViewport\<close> (39) and \<open>setRequestInterception\<close> (42); the empty
  capture array of line 44 (no listener is suspended yet); the log of line 62 and
  \<open>page.goto\<close> (63); the log of line 68 and the metadata read (72-85) with its log (87);
  the empty \<open>results\<close> of line 93 and the loop (95-171); the trace of the listener; the
  logs of lines 173-174; the two writes (177, 180); \<open>browser.close\<close> (182) and the
  last log (183). The request listener of lines 46-48 lets every request continue and
  changes nothing here. A step that throws ends the function with that error.
\<close>

definition scrapeNARA :: "'d env \<Rightarrow> (unit, 'd) prog" where
  "scrapeNARA env =
     bnd (log LogLaunching) (\<lambda>_.
     bnd (attempt (launch_r env)) (\<lambda>_.
     bnd (modify (\<lambda>s. s\<lparr>browser := Open\<rparr>)) (\<lambda>_.
     bnd (attempt (newPage_r env)) (\<lambda>_.
     bnd (attempt (setViewport_r env)) (\<lambda>_.
     bnd (attempt (setRequestInterception_r env)) (\<lambda>_.
     bnd (modify (\<lambda>s. s\<lparr>apiResponses := [], awaiting := []\<rparr>)) (\<lambda>_.
     bnd (log LogNavigating) (\<lambda>_.
     bnd (attempt (goto_r env)) (\<lambda>_.
     bnd (log LogWaiting) (\<lambda>_.
     bnd (await (itemData_r env)) (\<lambda>(link, thumbs).
     bnd (log (LogItemData \<lparr>downloadLink = link, pageCount = 14, thumbCount = thumbs\<rparr>)) (\<lambda>_.
     bnd (modify (\<lambda>s. s\<lparr>results := []\<rparr>)) (\<lambda>_.
     bnd (page_loop env 1) (\<lambda>_.
     bnd (modify (deliver (network env))) (\<lambda>_.
     bnd (log LogApiHeader) (\<lambda>_.
     bnd (\<lambda>s. log (LogCaptured (length (apiResponses s))) s) (\<lambda>_.
     bnd (\<lambda>s. writeFileSync (writeApi_r env) ''api_responses.json''
                 (ApiResponsesJson (apiResponses s)) s) (\<lambda>_.
     bnd (\<lambda>s. writeFileSync (writeResults_r env) ''scrape_results.json''
                 (ResultsJson (results s)) s) (\<lambda>_.
     bnd (attempt (close_r env)) (\<lambda>_.
     bnd (modify (\<lambda>s. s\<lparr>browser := Closed\<rparr>)) (\<lambda>_.
     log LogClosed)))))))))))))))))))))"

subsection \<open>The script (lines 7-12 and 186)\<close>

text \<open>\<open>if (!fs.existsSync(d)) fs.mkdirSync(d)\<close>.\<close>

definition ensure_dir :: "'d env \<Rightarrow> string \<Rightarrow> (unit, 'd) prog" where
  "ensure_dir env d =
     (\<lambda>s. if d \<in> dirs s then ret () s
          else bnd (attempt (mkdir_r env d)) (\<lambda>_. modify (\<lambda>s. s\<lparr>dirs := insert d (dirs s)\<rparr>)) s)"

definition setup_dirs :: "'d env \<Rightarrow> (unit, 'd) prog" where
  "setup_dirs env = bnd (ensure_dir env ''./images'') (\<lambda>_. ensure_dir env ''./transcriptions'')"

text \<open>
  The module body. An exception of lines 11-12 is uncaught and ends the process there.
  Line 186 attaches \<open>console.error\<close> as the rejection handler of the promise of
  \<open>scrapeNARA()\<close>; the promise that \<open>catch\<close> returns is the detached one.
\<close>

definition script :: "'d env \<Rightarrow> 'd state \<Rightarrow> 'd state" where
  "script env s =
     (case setup_dirs env s of
        (Inl e, s') \<Rightarrow> s'\<lparr>unhandled := unhandled s' @ [e]\<rparr>
      | (Inr _, s') \<Rightarrow>
          detached (try_catch (scrapeNARA env) (\<lambda>e. log (LogConsoleError e))) s')"

text \<open>
  The status the process ends with when nothing sets one: zero, unless an exception was
  uncaught or a rejection unhandled.
\<close>

definition exit_status :: "'d state \<Rightarrow> nat" where
  "exit_status s = (if unhandled s = [] then 0 else 1)"

text \<open>A fresh process: nothing logged, no browser, the given directories and files.\<close>

definition initial :: "string set \<Rightarrow> (string \<rightharpoonup> 'd file_content) \<Rightarrow> 'd state" where
  "initial ds fs =
     \<lparr>console = [], dirs = ds, files = fs, browser = NotLaunched, apiResponses = [],
      awaiting = [], results = [], unhandled = []\<rparr>"

subsection \<open>The download helper (lines 14-29)\<close>

text \<open>
  \<open>downloadFile\<close> runs the executor of lines 16-27 and returns its promise. The executor
  creates a write stream on \<open>filepath\<close> (line 17; the stream opens the file later, on its
  own) and calls \<open>protocol.get\<close> (line 18). When that call throws, the exception leaves
  the executor and rejects the promise; the listeners of lines 18-27 are then never
  registered, and the write stream stays. When it returns, three callbacks are
  registered: the response callback (pipe the body into the file, and on the file's
  \<open>finish\<close> close it and resolve), and the request's \<open>error\<close> listener (unlink the file
  and reject). The outcome of \<open>protocol.get\<close> is an input of the model (\<open>None\<close>: it
  returned), and what happens next is a trace of events of the write stream, the
  request and the response.

  The source attaches no \<open>error\<close> listener to the write stream and no listener at all to
  the response stream. An \<open>error\<close> of the write stream (\<open>OnFileError\<close>: the file cannot
  be opened, or a write fails) is therefore an uncaught exception, which ends the
  process: nothing runs after it. \<open>OnAborted\<close> is the connection closing after the
  response has started and before its body is complete: the response stream is aborted
  and closed, the pipe is detached, the request emits no \<open>error\<close> event, and no code of
  the source runs.
\<close>

datatype protocol = Http | Https

text \<open>Line 16: \<open>url.startsWith('https') ? https : http\<close>.\<close>

definition protocol_of :: "string \<Rightarrow> protocol" where
  "protocol_of u = (if prefix ''https'' u then Https else Http)"

datatype settlement = Pending | Resolved | Rejected error

datatype dl_event =
    OnOpen                  \<comment> \<open>the write stream has opened the file\<close>
  | OnFileError error       \<comment> \<open>the write stream emits error\<close>
  | OnResponse nat          \<comment> \<open>the response arrives, with its HTTP status code\<close>
  | OnData string           \<comment> \<open>a chunk of the body comes through the pipe\<close>
  | OnEnd                   \<comment> \<open>the body ends; the pipe ends the write stream\<close>
  | OnRequestError error    \<comment> \<open>the request emits error\<close>
  | OnAborted               \<comment> \<open>the response stream closes early\<close>

text \<open>
  \<open>listening\<close>: the callbacks of lines 18-27 are registered. \<open>opened\<close>: the file is open.
  \<open>buffered\<close>: the bytes the stream holds until the file is open. \<open>piped\<close>: the pipe of
  line 19 is attached. \<open>ended\<close>: the pipe has ended the stream. \<open>finished\<close>: the stream
  has emitted \<open>finish\<close>. \<open>uncaught\<close>: the exception that ended the process.
\<close>

record download =
  promise :: settlement
  via :: protocol
  listening :: bool
  opened :: bool
  buffered :: string
  piped :: bool
  ended :: bool
  finished :: bool
  uncaught :: "error option"
  disk :: "string \<rightharpoonup> string"

text \<open>A promise settles once: later calls of \<open>resolve\<close> or \<open>reject\<close> do nothing.\<close>

definition resolve :: "download \<Rightarrow> download" where
  "resolve s = (if promise s = Pending then s\<lparr>promise := Resolved\<rparr> else s)"

definition reject :: "error \<Rightarrow> download \<Rightarrow> download" where
  "reject e s = (if promise s = Pending then s\<lparr>promise := Rejected e\<rparr> else s)"

text \<open>
  The state when the executor has run, \<open>g\<close> being the outcome of \<open>protocol.get\<close>. The file
  is not yet there: the stream has still to open it.
\<close>

definition download_start ::
  "string \<Rightarrow> string \<Rightarrow> error option \<Rightarrow> (string \<rightharpoonup> string) \<Rightarrow> download" where
  "download_start u filepath g d =
     \<lparr>promise = (case g of None \<Rightarrow> Pending | Some e \<Rightarrow> Rejected e), via = protocol_of u,
      listening = (g = None), opened = False, buffered = [], piped = False, ended = False,
      finished = False, uncaught = None, disk = d\<rparr>"

text \<open>Lines 20-23, the \<open>finish\<close> listener: \<open>file.close(); resolve()\<close>.\<close>

definition finish :: "download \<Rightarrow> download" where
  "finish s = resolve (s\<lparr>finished := True\<rparr>)"

text \<open>
  Bytes written to the stream wait until the file is open, and then go to the file
  that the stream opened; they show under the name \<open>filepath\<close> as long as the file has
  not been unlinked.
\<close>

definition write_bytes :: "string \<Rightarrow> string \<Rightarrow> download \<Rightarrow> download" where
  "write_bytes filepath bytes s =
     (if opened s
      then (case disk s filepath of
              Some old \<Rightarrow> s\<lparr>disk := (disk s)(filepath \<mapsto> old @ bytes)\<rparr>
            | None \<Rightarrow> s)
      else s\<lparr>buffered := buffered s @ bytes\<rparr>)"

text \<open>
  Opening creates the file, or empties the one that was there, and writes what was
  buffered; a stream that was ended before it opened finishes now.
\<close>

fun dl_step :: "string \<Rightarrow> dl_event \<Rightarrow> download \<Rightarrow> download" where
  "dl_step filepath OnOpen s =
     (if opened s then s
      else (if ended s then finish else id)
             (s\<lparr>opened := True, buffered := [], disk := (disk s)(filepath \<mapsto> buffered s)\<rparr>))"
| "dl_step filepath (OnFileError e) s = s\<lparr>uncaught := Some e\<rparr>"
| "dl_step filepath (OnResponse status) s = (if listening s then s\<lparr>piped := True\<rparr> else s)"
| "dl_step filepath (OnData bytes) s =
     (if piped s \<and> \<not> ended s then write_bytes filepath bytes s else s)"
| "dl_step filepath OnEnd s =
     (if piped s \<and> \<not> ended s
      then (if opened s then finish else id) (s\<lparr>ended := True\<rparr>)
      else s)"
| "dl_step filepath (OnRequestError e) s =
     (if listening s then reject e (s\<lparr>disk := (disk s)(filepath := None)\<rparr>) else s)"
| "dl_step filepath OnAborted s = s\<lparr>piped := False\<rparr>"

text \<open>Once the process has ended on an uncaught exception, nothing happens any more.\<close>

definition dispatch :: "string \<Rightarrow> dl_event \<Rightarrow> download \<Rightarrow> download" where
  "dispatch filepath ev s = (if uncaught s = None then dl_step filepath ev s else s)"

definition downloadFile ::
  "string \<Rightarrow> string \<Rightarrow> error option \<Rightarrow> dl_event list \<Rightarrow> (string \<rightharpoonup> string) \<Rightarrow> download" where
  "downloadFile u filepath g evs d =
     foldl (\<lambda>s ev. dispatch filepath ev s) (download_start u filepath g d) evs"

section \<open>Notions used in the statements\<close>

subsection \<open>What one page contributes\<close>

text \<open>The three awaited calls that precede \<open>results.push\<close> in the outer try block returned.\<close>

definition recorded :: "page_env \<Rightarrow> bool" where
  "recorded p \<longleftrightarrow>
     waitForSelector_r p = None \<and>
     (case click_r p of Inl e \<Rightarrow> False | Inr c \<Rightarrow> True) \<and>
     (case imageUrl_r p of Inl e \<Rightarrow> False | Inr u \<Rightarrow> True)"

text \<open>The transcription sub-step threw: at the search for the tab, or at the read.\<close>

definition transcription_failed :: "page_env \<Rightarrow> bool" where
  "transcription_failed p =
     (case hasTranscriptionTab_r p of
        Inl e \<Rightarrow> True
      | Inr b \<Rightarrow> b \<and> (case transcription_r p of Inl e \<Rightarrow> True | Inr t \<Rightarrow> False))"

text \<open>
  The value of the local \<open>transcription\<close> at line 159, and what an iteration appends
  to \<open>results\<close> and to the console, as functions of the answers of the browser. That
  \<open>process_page\<close> does exactly this is proved below (\<open>process_page_run\<close>).
\<close>

definition transcription_of :: "page_env \<Rightarrow> string" where
  "transcription_of p =
     (case hasTranscriptionTab_r p of
        Inr True \<Rightarrow> (case transcription_r p of Inr t \<Rightarrow> t | Inl e \<Rightarrow> [])
      | _ \<Rightarrow> [])"

definition page_entries :: "page_env \<Rightarrow> nat \<Rightarrow> page_result list" where
  "page_entries p i =
     (case (waitForSelector_r p, click_r p, imageUrl_r p) of
        (None, Inr c, Inr u) \<Rightarrow> [\<lparr>page = i, imageUrl = u, transcription = transcription_of p\<rparr>]
      | _ \<Rightarrow> [])"

definition page_log :: "page_env \<Rightarrow> nat \<Rightarrow> log_line list" where
  "page_log p i =
     LogProcessing i #
     (case waitForSelector_r p of
        Some e \<Rightarrow> [LogPageError i (message e)]
      | None \<Rightarrow>
         (case click_r p of
            Inl e \<Rightarrow> [LogPageError i (message e)]
          | Inr c \<Rightarrow>
             (case imageUrl_r p of
                Inl e \<Rightarrow> [LogPageError i (message e)]
              | Inr u \<Rightarrow>
                  (if transcription_failed p then [LogNoTranscription i] else []) @
                  [LogImageUrl i (image_text u),
                   LogTranscription i (transcription_text (transcription_of p))])))"

definition all_entries :: "'d env \<Rightarrow> page_result list" where
  "all_entries env = concat (map (\<lambda>j. page_entries (pages_r env j) j) [1..<15])"

definition all_page_logs :: "'d env \<Rightarrow> log_line list" where
  "all_page_logs env = concat (map (\<lambda>j. page_log (pages_r env j) j) [1..<15])"

subsection \<open>Top-level steps\<close>

text \<open>Lines 33-42 returned; and the run got as far as the page loop.\<close>

definition setup_ok :: "'d env \<Rightarrow> bool" where
  "setup_ok env \<longleftrightarrow>
     launch_r env = None \<and> newPage_r env = None \<and> setViewport_r env = None \<and>
     setRequestInterception_r env = None"

definition loop_reached :: "'d env \<Rightarrow> bool" where
  "loop_reached env \<longleftrightarrow>
     setup_ok env \<and> goto_r env = None \<and>
     (case itemData_r env of Inl e \<Rightarrow> False | Inr x \<Rightarrow> True)"

text \<open>The arrays read back from the two output files (empty when the file is not there).\<close>

definition written_results :: "'d state \<Rightarrow> page_result list" where
  "written_results s =
     (case files s ''scrape_results.json'' of Some (ResultsJson rs) \<Rightarrow> rs | _ \<Rightarrow> [])"

definition written_api :: "'d state \<Rightarrow> 'd captured list" where
  "written_api s =
     (case files s ''api_responses.json'' of Some (ApiResponsesJson cs) \<Rightarrow> cs | _ \<Rightarrow> [])"

subsection \<open>Traces of the response listener\<close>

text \<open>
  A trace is well formed when response numbers are not reused and a body promise
  settles once, after its response was dispatched. \<open>opn\<close> lists the responses whose
  body promise has not settled, \<open>used\<close> all numbers seen.
\<close>

fun wf_trace :: "nat list \<Rightarrow> nat list \<Rightarrow> 'd event list \<Rightarrow> bool" where
  "wf_trace opn used [] = True"
| "wf_trace opn used (Response k u # evs) =
     (k \<notin> set used \<and> wf_trace (k # opn) (k # used) evs)"
| "wf_trace opn used (Json k r # evs) =
     (k \<in> set opn \<and> wf_trace (removeAll k opn) used evs)"

definition well_formed :: "'d event list \<Rightarrow> bool" where
  "well_formed evs = wf_trace [] [] evs"

text \<open>The responses of a trace with a matching URL, by number.\<close>

fun matching :: "'d event list \<Rightarrow> (nat \<times> string) list" where
  "matching [] = []"
| "matching (Response k u # evs) = (if matches u then [(k, u)] else []) @ matching evs"
| "matching (Json k r # evs) = matching evs"

text \<open>
  Settlement order: one entry for each body that parsed, in the order in which the
  body promises settled; \<open>f\<close> gives the URL of a response.
\<close>

fun settled :: "(nat \<rightharpoonup> string) \<Rightarrow> 'd event list \<Rightarrow> 'd captured list" where
  "settled f [] = []"
| "settled f (Response k u # evs) = settled f evs"
| "settled f (Json k (Inl e) # evs) = settled f evs"
| "settled f (Json k (Inr d) # evs) =
     (case f k of Some u \<Rightarrow> [\<lparr>url = u, data = d\<rparr>] | None \<Rightarrow> []) @ settled f evs"

definition settle_order :: "'d event list \<Rightarrow> 'd captured list" where
  "settle_order evs = settled (map_of (matching evs)) evs"

text \<open>
  Arrival order, as the specification words it: one entry for each matching response
  whose body parsed, in the order in which the responses were dispatched.
\<close>

fun body_of :: "'d event list \<Rightarrow> nat \<Rightarrow> 'd option" where
  "body_of [] k = None"
| "body_of (Response k' u # evs) k = body_of evs k"
| "body_of (Json k' (Inl e) # evs) k = body_of evs k"
| "body_of (Json k' (Inr d) # evs) k = (if k' = k then Some d else body_of evs k)"

fun arrivals :: "'d event list \<Rightarrow> 'd event list \<Rightarrow> 'd captured list" where
  "arrivals tr [] = []"
| "arrivals tr (Response k u # evs) =
     (if matches u
      then (case body_of tr k of Some d \<Rightarrow> [\<lparr>url = u, data = d\<rparr>] | None \<Rightarrow> [])
      else []) @ arrivals tr evs"
| "arrivals tr (Json k r # evs) = arrivals tr evs"

definition arrival_order :: "'d event list \<Rightarrow> 'd captured list" where
  "arrival_order evs = arrivals evs evs"

text \<open>The capture sequence after a trace, from the empty array of line 44.\<close>

definition capture :: "'d event list \<Rightarrow> 'd captured list" where
  "capture evs = apiResponses (deliver evs (initial {} Map.empty))"

subsection \<open>Downloads\<close>


subsection \<open>Example runs\<close>

text \<open>A page on which every call returns, and a run in which every call returns.\<close>

definition page_fine :: page_env where
  "page_fine =
     \<lparr>waitForSelector_r = None, click_r = Inr True,
      imageUrl_r = Inr (Some ''https://s3.amazonaws.com/NARAprodstorage/4159576_00490.jpg''),
      hasTranscriptionTab_r = Inr True, transcription_r = Inr ''State of Virginia''\<rparr>"

definition env_fine :: "nat env" where
  "env_fine =
     \<lparr>mkdir_r = (\<lambda>d. None), launch_r = None, newPage_r = None, setViewport_r = None,
      setRequestInterception_r = None, goto_r = None, itemData_r = Inr (None, 14),
      pages_r = (\<lambda>i. page_fine), network = [], writeApi_r = None, writeResults_r = None,
      close_r = None\<rparr>"

text \<open>The click on the thumbnail of page 7 throws.\<close>

definition env_click7 :: "nat env" where
  "env_click7 =
     env_fine\<lparr>pages_r := (\<lambda>i. if i = 7 then page_fine\<lparr>click_r := Inl (Error ''Node is detached'')\<rparr>
                            else page_fine)\<rparr>"

text \<open>The read of the transcription text of page 3 throws.\<close>

definition env_transcription3 :: "nat env" where
  "env_transcription3 =
     env_fine\<lparr>pages_r := (\<lambda>i. if i = 3
                            then page_fine\<lparr>transcription_r := Inl (Error ''Execution context was destroyed'')\<rparr>
                            else page_fine)\<rparr>"

text \<open>The navigation times out; the browser cannot be launched.\<close>

definition env_goto_timeout :: "nat env" where
  "env_goto_timeout = env_fine\<lparr>goto_r := Some (Error ''Navigation timeout of 60000 ms exceeded'')\<rparr>"

definition env_launch_fails :: "nat env" where
  "env_launch_fails = env_fine\<lparr>launch_r := Some (Error ''Failed to launch the browser process'')\<rparr>"

text \<open>
  Two matching responses; the body of the second is parsed before the body of the
  first. And a matching response whose body is not JSON.
\<close>

definition trace_overtaken :: "nat event list" where
  "trace_overtaken =
     [Response 0 ''https://catalog.archives.gov/proxy/v3/records/search'',
      Response 1 ''https://catalog.archives.gov/proxy/contributions/targetNaId/54928953'',
      Json 1 (Inr 11), Json 0 (Inr 10)]"

definition env_overtaken :: "nat env" where
  "env_overtaken = env_fine\<lparr>network := trace_overtaken\<rparr>"

definition trace_not_json :: "nat event list" where
  "trace_not_json =
     [Response 0 ''https://catalog.archives.gov/proxy/v3/records/search'',
      Json 0 (Inl (Error ''Unexpected token < in JSON at position 0''))]"



definition trace_interrupted :: "dl_event list" where
  "trace_interrupted = [OnOpen, OnResponse 200, OnData ''JFIF'', OnAborted]"



definition fresh :: "nat state" where
  "fresh = initial {} Map.empty"

section \<open>Running the model\<close>

subsection \<open>Computations\<close>

lemma ret_apply [simp]: "ret x s = (Inr x, s)"
  by (simp add: ret_def)

lemma throw_apply [simp]: "throw e s = (Inl e, s)"
  by (simp add: throw_def)

lemma await_apply [simp]: "await r s = (r, s)"
  by (simp add: await_def)

lemma modify_apply [simp]: "modify f s = (Inr (), f s)"
  by (simp add: modify_def)

lemma log_apply [simp]: "log l s = (Inr (), s\<lparr>console := console s @ [l]\<rparr>)"
  by (simp add: log_def)

lemma attempt_apply [simp]:
  "attempt None s = (Inr (), s)"
  "attempt (Some e) s = (Inl e, s)"
  by (simp_all add: attempt_def)

subsection \<open>One page, and the loop\<close>

lemma get_transcription_run:
  "get_transcription p i s =
     (Inr (transcription_of p),
      s\<lparr>console := console s @ (if transcription_failed p then [LogNoTranscription i] else [])\<rparr>)"
  by (simp add: get_transcription_def bnd_def try_catch_def transcription_of_def
        transcription_failed_def split: sum.splits bool.splits)

text \<open>An iteration never throws; it appends to the console and to \<open>results\<close> only.\<close>

lemma process_page_run:
  "process_page p i s =
     (Inr (), s\<lparr>console := console s @ page_log p i, results := results s @ page_entries p i\<rparr>)"
  by (simp add: process_page_def bnd_def try_catch_def get_transcription_run page_log_def
        page_entries_def split: sum.splits option.splits)

lemma page_loop_run:
  "i \<le> 15 \<Longrightarrow> page_loop env i s =
     (Inr (), s\<lparr>console := console s @ concat (map (\<lambda>j. page_log (pages_r env j) j) [i..<15]),
                results := results s @ concat (map (\<lambda>j. page_entries (pages_r env j) j) [i..<15])\<rparr>)"
proof (induction env i arbitrary: s rule: page_loop.induct)
  case (1 env i)
  show ?case
  proof (cases "i \<le> 14")
    case True
    then have "[i..<15] = i # [Suc i..<15]"
      by (simp add: upt_conv_Cons)
    with True 1 show ?thesis
      by (subst page_loop.simps) (simp add: process_page_run bnd_def)
  next
    case False
    with 1 have "i = 15" by simp
    then show ?thesis
      by (subst page_loop.simps) simp
  qed
qed

lemma page_loop_from_1:
  "page_loop env (Suc 0) s =
     (Inr (), s\<lparr>console := console s @ all_page_logs env, results := results s @ all_entries env\<rparr>)"
  by (simp add: page_loop_run all_page_logs_def all_entries_def)

lemma page_entries_pages:
  "map page (page_entries p i) = (if recorded p then [i] else [])"
  by (simp add: page_entries_def recorded_def split: option.splits sum.splits)

lemma map_page_entries:
  "map page (concat (map (\<lambda>j. page_entries (f j) j) js)) = filter (\<lambda>j. recorded (f j)) js"
  by (induction js) (simp_all add: page_entries_pages)

lemma pages_1_to_14: "[Suc 0..<15] = [1, 2, 3, 4, 5, 6, 7, 8, 9, 10, 11, 12, 13, 14]"
  by (simp add: upt_rec)

subsection \<open>The listener\<close>

lemma str_includes_iff: "str_includes s sub \<longleftrightarrow> (\<exists>pre post. s = pre @ sub @ post)"
  by (simp add: str_includes_def sublist_def)

lemma on_event_Json:
  "on_event (Json k r) s =
     (case map_of (awaiting s) k of
        None \<Rightarrow> s
      | Some u \<Rightarrow>
         (case r of
            Inl e \<Rightarrow> s\<lparr>awaiting := filter (\<lambda>p. fst p \<noteq> k) (awaiting s)\<rparr>
          | Inr d \<Rightarrow> s\<lparr>awaiting := filter (\<lambda>p. fst p \<noteq> k) (awaiting s),
                       apiResponses := apiResponses s @ [\<lparr>url = u, data = d\<rparr>]\<rparr>))"
  by (simp add: detached_def resume_def try_catch_def bnd_def split: option.splits sum.splits)

declare on_event.simps(2) [simp del]

lemma on_event_frame:
  "on_event ev s =
     s\<lparr>apiResponses := apiResponses (on_event ev s), awaiting := awaiting (on_event ev s)\<rparr>"
  by (cases ev) (simp_all add: on_event_Json split: option.splits sum.splits)

lemma deliver_Nil [simp]: "deliver [] s = s"
  by (simp add: deliver_def)

lemma deliver_Cons [simp]: "deliver (ev # evs) s = deliver evs (on_event ev s)"
  by (simp add: deliver_def)

text \<open>The listener changes nothing but \<open>apiResponses\<close> and its own suspended invocations.\<close>

lemma deliver_frame:
  "deliver evs s =
     s\<lparr>apiResponses := apiResponses (deliver evs s), awaiting := awaiting (deliver evs s)\<rparr>"
proof (induction evs arbitrary: s)
  case Nil
  show ?case by simp
next
  case (Cons ev evs)
  let ?t = "on_event ev s"
  have "deliver (ev # evs) s = deliver evs ?t" by simp
  also have "\<dots> = ?t\<lparr>apiResponses := apiResponses (deliver evs ?t),
      awaiting := awaiting (deliver evs ?t)\<rparr>"
    by (rule Cons.IH)
  also have "\<dots> = s\<lparr>apiResponses := apiResponses (deliver evs ?t),
      awaiting := awaiting (deliver evs ?t)\<rparr>"
    by (subst on_event_frame) simp
  finally show ?case by simp
qed

lemma deliver_fields [simp]:
  "console (deliver evs s) = console s"
  "dirs (deliver evs s) = dirs s"
  "files (deliver evs s) = files s"
  "browser (deliver evs s) = browser s"
  "results (deliver evs s) = results s"
  "unhandled (deliver evs s) = unhandled s"
  by (subst deliver_frame, simp)+

subsection \<open>The run, step by step\<close>

text \<open>The state in which the page loop is entered, and the state in which it is left.\<close>

lemma scrapeNARA_stops_at_goto:
  assumes "setup_ok env" "goto_r env = Some e"
  shows "scrapeNARA env s =
     (Inl e, s\<lparr>console := console s @ [LogLaunching, LogNavigating], browser := Open,
               apiResponses := [], awaiting := []\<rparr>)"
  using assms by (simp add: scrapeNARA_def setup_ok_def bnd_def)

lemma results_file:
  assumes "loop_reached env" "writeApi_r env = None" "writeResults_r env = None"
  shows "files (snd (scrapeNARA env s)) ''scrape_results.json'' = Some (ResultsJson (all_entries env))"
  using assms
  by (simp add: scrapeNARA_def loop_reached_def setup_ok_def writeFileSync_def page_loop_from_1
        bnd_def attempt_def split: sum.splits option.splits prod.splits)

lemma written_results_run:
  assumes "loop_reached env" "writeApi_r env = None" "writeResults_r env = None"
  shows "written_results (snd (scrapeNARA env s)) = all_entries env"
  by (simp add: written_results_def results_file [OF assms])


lemma scrapeNARA_unhandled: "unhandled (snd (scrapeNARA env s)) = unhandled s"
  by (simp add: scrapeNARA_def writeFileSync_def page_loop_from_1 bnd_def attempt_def
        split: sum.splits option.splits prod.splits)

lemma browser_after_run:
  "browser (snd (scrapeNARA env s)) =
     (if launch_r env \<noteq> None then browser s
      else if loop_reached env \<and> writeApi_r env = None \<and> writeResults_r env = None \<and>
              close_r env = None then Closed
      else Open)"
  by (simp add: scrapeNARA_def loop_reached_def setup_ok_def writeFileSync_def page_loop_from_1
        bnd_def attempt_def split: sum.splits option.splits prod.splits)

lemma console_after_loop:
  assumes "loop_reached env"
  shows "set (all_page_logs env) \<subseteq> set (console (snd (scrapeNARA env s)))"
  using assms
  by (auto simp: scrapeNARA_def loop_reached_def setup_ok_def writeFileSync_def page_loop_from_1
        bnd_def attempt_def split: sum.splits option.splits prod.splits)

lemma page_log_in_all:
  assumes "1 \<le> i" "i \<le> 14"
  shows "set (page_log (pages_r env i) i) \<subseteq> set (all_page_logs env)"
proof -
  have "i \<in> set [1..<15]" using assms by simp
  then show ?thesis unfolding all_page_logs_def by auto
qed

lemma entries_without_page:
  assumes "page_entries (f i) i = []" "list_all (\<lambda>j. j = i \<or> g j = f j) js"
  shows "concat (map (\<lambda>j. page_entries (f j) j) js) =
         filter (\<lambda>r. page r \<noteq> i) (concat (map (\<lambda>j. page_entries (g j) j) js))"
  using assms(2)
proof (induction js)
  case Nil
  show ?case by simp
next
  case (Cons j js)
  have keep: "filter (\<lambda>r. page r \<noteq> i) (page_entries p j) = (if j = i then [] else page_entries p j)"
    for p
    by (simp add: page_entries_def split: option.splits sum.splits)
  show ?case
  proof (cases "j = i")
    case True
    have "filter (\<lambda>r. page r \<noteq> i) (page_entries (g i) i) = []"
      using keep [of "g j"] True by simp
    with True Cons show ?thesis by (simp add: assms(1))
  next
    case False
    with Cons show ?thesis by (simp add: keep)
  qed
qed

subsection \<open>What the listener captures\<close>

lemma wf_trace_Json_later:
  "wf_trace opn used evs \<Longrightarrow> Json k r \<in> set evs \<Longrightarrow> k \<in> set opn \<or> k \<notin> set used"
proof (induction opn used evs rule: wf_trace.induct)
  case (1 opn used)
  then show ?case by simp
next
  case (2 opn used k' u evs)
  then show ?case by auto
next
  case (3 opn used k' r' evs)
  then show ?case by (auto split: if_splits)
qed

lemma wf_trace_matching_fresh:
  "wf_trace opn used evs \<Longrightarrow> k \<in> set used \<Longrightarrow> k \<notin> fst ` set (matching evs)"
proof (induction opn used evs rule: wf_trace.induct)
  case (1 opn used)
  then show ?case by simp
next
  case (2 opn used k' u evs)
  then show ?case by auto
next
  case (3 opn used k' r' evs)
  then show ?case by auto
qed

lemma settled_agree:
  "\<forall>k r. Json k r \<in> set evs \<longrightarrow> f k = g k \<Longrightarrow> settled f evs = settled g evs"
proof (induction evs)
  case Nil
  show ?case by simp
next
  case (Cons ev evs)
  then have rest: "settled f evs = settled g evs" by auto
  show ?case
  proof (cases ev)
    case (Response k u)
    then show ?thesis using rest by simp
  next
    case (Json k r)
    then have "f k = g k" using Cons.prems by auto
    then show ?thesis using rest Json by (cases r) simp_all
  qed
qed

lemma map_of_filter_other:
  "k' \<noteq> k \<Longrightarrow> map_of (filter (\<lambda>p. fst p \<noteq> k) A) k' = map_of A k'"
  by (induction A) auto

lemma map_of_append_Some: "map_of A k = Some u \<Longrightarrow> map_of (A @ B) k = Some u"
  by (simp add: map_add_Some_iff)

lemma map_of_append_None:
  "map_of A k = None \<Longrightarrow> k \<notin> fst ` set B \<Longrightarrow> map_of (A @ B) k = None"
  by (simp add: map_add_def map_of_eq_None_iff split: option.splits)

lemma deliver_settled:
  assumes "wf_trace opn used evs" "set opn \<subseteq> set used" "fst ` set (awaiting s) \<subseteq> set used"
  shows "apiResponses (deliver evs s) =
           apiResponses s @ settled (map_of (awaiting s @ matching evs)) evs"
  using assms
proof (induction opn used evs arbitrary: s rule: wf_trace.induct)
  case (1 opn used)
  show ?case by simp
next
  case (2 opn used k u evs)
  let ?s = "on_event (Response k u) s"
  have "wf_trace (k # opn) (k # used) evs" using 2(2) by simp
  moreover have "set (k # opn) \<subseteq> set (k # used)" using 2(3) by auto
  moreover have "fst ` set (awaiting ?s) \<subseteq> set (k # used)" using 2(4) by auto
  ultimately have "apiResponses (deliver evs ?s) =
      apiResponses ?s @ settled (map_of (awaiting ?s @ matching evs)) evs"
    by (rule 2(1))
  then show ?case by simp
next
  case (3 opn used k r evs)
  have k_open: "k \<in> set opn" and rest: "wf_trace (removeAll k opn) used evs"
    using 3(2) by simp_all
  have k_used: "k \<in> set used" using k_open 3(3) by auto
  have no_later: "k' \<noteq> k" if "Json k' r' \<in> set evs" for k' r'
    using wf_trace_Json_later [OF rest that] k_used by auto
  let ?s = "on_event (Json k r) s"
  have sub: "set (removeAll k opn) \<subseteq> set used" using 3(3) by auto
  have aw: "fst ` set (awaiting ?s) \<subseteq> set used"
    using 3(4) by (auto simp: on_event_Json split: option.splits sum.splits)
  have IH: "apiResponses (deliver evs ?s) =
      apiResponses ?s @ settled (map_of (awaiting ?s @ matching evs)) evs"
    using rest sub aw by (rule 3(1))
  show ?case
  proof (cases "map_of (awaiting s) k")
    case None
    have fresh: "k \<notin> fst ` set (matching evs)"
      using wf_trace_matching_fresh [OF rest k_used] .
    have "map_of (awaiting s @ matching evs) k = None"
      using None fresh by (rule map_of_append_None)
    moreover have "?s = s" using None by (simp add: on_event_Json)
    ultimately show ?thesis using IH by (cases r) (simp_all del: map_of_append)
  next
    case (Some u)
    have look: "map_of (awaiting s @ matching evs) k = Some u"
      using Some by (rule map_of_append_Some)
    have same: "settled (map_of (filter (\<lambda>p. fst p \<noteq> k) (awaiting s) @ matching evs)) evs =
        settled (map_of (awaiting s @ matching evs)) evs"
    proof (rule settled_agree, intro allI impI)
      fix k' r' assume "Json k' (r' :: error + 'a) \<in> set evs"
      then have "k' \<noteq> k" by (rule no_later)
      then show "map_of (filter (\<lambda>p. fst p \<noteq> k) (awaiting s) @ matching evs) k' =
          map_of (awaiting s @ matching evs) k'"
        by (simp add: map_add_def map_of_filter_other)
    qed
    show ?thesis
    proof (cases r)
      case (Inl e)
      then show ?thesis using IH Some same by (simp add: on_event_Json del: map_of_append)
    next
      case (Inr d)
      then show ?thesis using IH Some same look by (simp add: on_event_Json del: map_of_append)
    qed
  qed
qed

text \<open>The listener reads nothing but \<open>apiResponses\<close> and its suspended invocations.\<close>

lemma deliver_reads:
  assumes "apiResponses s = a" "awaiting s = w" "apiResponses t = a" "awaiting t = w"
  shows "apiResponses (deliver evs s) = apiResponses (deliver evs t) \<and>
         awaiting (deliver evs s) = awaiting (deliver evs t)"
  using assms
proof (induction evs arbitrary: s t a w)
  case Nil
  then show ?case by simp
next
  case (Cons ev evs)
  have "apiResponses (on_event ev s) = apiResponses (on_event ev t) \<and>
      awaiting (on_event ev s) = awaiting (on_event ev t)"
    using Cons.prems by (cases ev) (simp_all add: on_event_Json split: option.splits sum.splits)
  then have "apiResponses (deliver evs (on_event ev s)) = apiResponses (deliver evs (on_event ev t)) \<and>
      awaiting (deliver evs (on_event ev s)) = awaiting (deliver evs (on_event ev t))"
    using Cons.IH [of "on_event ev s" "apiResponses (on_event ev t)" "awaiting (on_event ev t)"
        "on_event ev t"] by simp
  then show ?case by simp
qed

lemma deliver_capture:
  fixes s :: "'d state"
  assumes "apiResponses s = []" "awaiting s = []"
  shows "apiResponses (deliver evs s) = capture evs"
proof -
  let ?t = "initial {} Map.empty :: 'd state"
  have "apiResponses ?t = []" "awaiting ?t = []"
    by (simp_all add: initial_def)
  with assms have "apiResponses (deliver evs s) = apiResponses (deliver evs ?t)"
    using deliver_reads [of s "[]" "[]" ?t evs] by blast
  then show ?thesis by (simp add: capture_def)
qed

lemma capture_settle_order:
  fixes evs :: "'d event list"
  assumes "well_formed evs"
  shows "capture evs = settle_order evs"
proof -
  let ?s = "initial {} Map.empty :: 'd state"
  have "wf_trace [] [] evs" using assms by (simp add: well_formed_def)
  then have "apiResponses (deliver evs ?s) =
      apiResponses ?s @ settled (map_of (awaiting ?s @ matching evs)) evs"
    by (rule deliver_settled) (simp_all add: initial_def)
  then show ?thesis by (simp add: capture_def settle_order_def initial_def)
qed

lemma deliver_matches:
  assumes "\<forall>c \<in> set (apiResponses s). matches (url c)"
    and "\<forall>p \<in> set (awaiting s). matches (snd p)"
  shows "\<forall>c \<in> set (apiResponses (deliver evs s)). matches (url c)"
  using assms
proof (induction evs arbitrary: s)
  case Nil
  then show ?case by simp
next
  case (Cons ev evs)
  have "(\<forall>c \<in> set (apiResponses (on_event ev s)). matches (url c)) \<and>
      (\<forall>p \<in> set (awaiting (on_event ev s)). matches (snd p))"
  proof (cases ev)
    case (Response k u)
    then show ?thesis using Cons.prems by simp
  next
    case (Json k r)
    show ?thesis
    proof (cases "map_of (awaiting s) k")
      case None
      then show ?thesis using Cons.prems Json by (simp add: on_event_Json)
    next
      case (Some u)
      then have "(k, u) \<in> set (awaiting s)" by (rule map_of_SomeD)
      then have "matches u" using Cons.prems(2) by force
      then show ?thesis using Cons.prems Json Some
        by (cases r) (simp_all add: on_event_Json)
    qed
  qed
  then show ?case using Cons.IH [of "on_event ev s"] by simp
qed

lemma capture_matches: "\<forall>c \<in> set (capture evs). matches (url c)"
  unfolding capture_def by (rule deliver_matches) (simp_all add: initial_def)

lemma api_file:
  assumes "loop_reached env" "writeApi_r env = None"
  shows "files (snd (scrapeNARA env s)) ''api_responses.json'' =
           Some (ApiResponsesJson (capture (network env)))"
  using assms
  by (simp add: scrapeNARA_def loop_reached_def setup_ok_def writeFileSync_def page_loop_from_1
        bnd_def attempt_def deliver_capture split: sum.splits option.splits prod.splits)

lemma matches_records: "matches ''https://catalog.archives.gov/proxy/v3/records/search''"
  by code_simp

lemma matches_contributions:
  "matches ''https://catalog.archives.gov/proxy/contributions/targetNaId/54928953''"
  by code_simp

subsection \<open>Downloads\<close>

lemma downloadFile_Nil: "downloadFile u p g [] d = download_start u p g d"
  by (simp add: downloadFile_def)












section \<open>The page loop and its results\<close>

text \<open>
  Claim C1, as amended. The claim promises 14 entries whatever fails; the push of line
  159 lies inside the outer try block, so a page whose \<open>waitForSelector\<close>, click or
  image read throws gets no entry. On every run that writes \<open>scrape_results.json\<close> the
  file exists and its page numbers are, in increasing order, exactly the pages from 1
  to 14 on which these three calls returned. A failure of the transcription sub-step
  is not among the conditions: it never removes an entry.
\<close>

theorem results_one_entry_per_recorded_page:
  assumes "loop_reached env" "writeApi_r env = None" "writeResults_r env = None"
  shows "files (snd (scrapeNARA env s)) ''scrape_results.json'' \<noteq> None \<and>
         map page (written_results (snd (scrapeNARA env s))) =
           filter (\<lambda>i. recorded (pages_r env i)) [1..<15]"
proof -
  have "map page (all_entries env) = filter (\<lambda>i. recorded (pages_r env i)) [1..<15]"
    unfolding all_entries_def by (rule map_page_entries)
  then show ?thesis
    by (simp add: written_results_run [OF assms] results_file [OF assms])
qed

text \<open>
  With the transcription read of page 3 throwing, all 14 pages are still there, each at
  its own position.
\<close>

theorem results_one_entry_per_recorded_page_witness:
  "loop_reached env_transcription3 \<and> writeApi_r env_transcription3 = None \<and>
   writeResults_r env_transcription3 = None \<and>
   map page (written_results (snd (scrapeNARA env_transcription3 fresh))) =
     [1, 2, 3, 4, 5, 6, 7, 8, 9, 10, 11, 12, 13, 14]"
  using results_one_entry_per_recorded_page [of env_transcription3 fresh]
  by (simp add: env_transcription3_def env_fine_def page_fine_def loop_reached_def setup_ok_def
        recorded_def pages_1_to_14)

text \<open>
  Claim C1 as stated fails: when the click of page 7 throws, the file has 13 entries
  and position 7 holds page 8.
\<close>

theorem results_missing_page_counterexample:
  "map page (written_results (snd (scrapeNARA env_click7 fresh))) =
     [1, 2, 3, 4, 5, 6, 8, 9, 10, 11, 12, 13, 14] \<and>
   length (written_results (snd (scrapeNARA env_click7 fresh))) \<noteq> 14"
proof -
  have reached: "loop_reached env_click7" "writeApi_r env_click7 = None"
    "writeResults_r env_click7 = None"
    by (simp_all add: env_click7_def env_fine_def loop_reached_def setup_ok_def)
  have "map page (all_entries env_click7) = filter (\<lambda>i. recorded (pages_r env_click7 i)) [1..<15]"
    unfolding all_entries_def by (rule map_page_entries)
  also have "\<dots> = [1, 2, 3, 4, 5, 6, 8, 9, 10, 11, 12, 13, 14]"
    by (simp add: pages_1_to_14 env_click7_def env_fine_def page_fine_def recorded_def)
  finally have pages: "map page (written_results (snd (scrapeNARA env_click7 fresh))) =
      [1, 2, 3, 4, 5, 6, 8, 9, 10, 11, 12, 13, 14]"
    by (simp add: written_results_run [OF reached])
  have "length (written_results (snd (scrapeNARA env_click7 fresh))) =
      length (map page (written_results (snd (scrapeNARA env_click7 fresh))))"
    by simp
  also have "\<dots> = 13"
    by (simp only: pages) simp
  finally have "length (written_results (snd (scrapeNARA env_click7 fresh))) \<noteq> 14"
    by simp
  with pages show ?thesis by (rule conjI)
qed

text \<open>
  Claim C2, as amended. The claim has page \<open>i\<close> present with a null image URL and an
  empty transcription; the outer catch block only logs, so page \<open>i\<close> has no entry. When
  the click of page \<open>i\<close> throws, on a run that writes the file: no entry of the file has
  page number \<open>i\<close>; the console has the line of 169 for page \<open>i\<close> with the message of the
  error; the loop goes on to page \<open>i + 1\<close>; and the file is what any run with the same
  answers on the other pages writes, less the entries of page \<open>i\<close>.
\<close>

theorem click_failure_drops_only_that_page:
  assumes "loop_reached env" "writeApi_r env = None" "writeResults_r env = None"
    and "1 \<le> i" "i \<le> 14"
    and "waitForSelector_r (pages_r env i) = None" "click_r (pages_r env i) = Inl e"
  shows "i \<notin> page ` set (written_results (snd (scrapeNARA env s))) \<and>
         LogPageError i (message e) \<in> set (console (snd (scrapeNARA env s))) \<and>
         (i < 14 \<longrightarrow> LogProcessing (Suc i) \<in> set (console (snd (scrapeNARA env s)))) \<and>
         (loop_reached env' \<and> writeApi_r env' = None \<and> writeResults_r env' = None \<and>
          list_all (\<lambda>j. j = i \<or> pages_r env' j = pages_r env j) [1..<15] \<longrightarrow>
          written_results (snd (scrapeNARA env s)) =
            filter (\<lambda>r. page r \<noteq> i) (written_results (snd (scrapeNARA env' s'))))"
proof -
  let ?S = "snd (scrapeNARA env s)"
  have written: "written_results ?S = all_entries env"
    using assms(1-3) by (rule written_results_run)
  have none: "page_entries (pages_r env i) i = []"
    using assms(7) by (simp add: page_entries_def split: option.splits)
  have "\<not> recorded (pages_r env i)"
    using assms(7) by (simp add: recorded_def)
  then have "i \<notin> set (filter (\<lambda>j. recorded (pages_r env j)) [1..<15])"
    by simp
  then have "i \<notin> set (map page (all_entries env))"
    unfolding all_entries_def map_page_entries .
  then have absent: "i \<notin> page ` set (written_results ?S)"
    by (simp add: written)
  have logs: "set (all_page_logs env) \<subseteq> set (console ?S)"
    using assms(1) by (rule console_after_loop)
  have "LogPageError i (message e) \<in> set (page_log (pages_r env i) i)"
    using assms(6,7) by (simp add: page_log_def)
  then have logged: "LogPageError i (message e) \<in> set (console ?S)"
    using page_log_in_all [OF assms(4,5), of env] logs by blast
  have next_page: "LogProcessing (Suc i) \<in> set (console ?S)" if "i < 14"
  proof -
    have "LogProcessing (Suc i) \<in> set (page_log (pages_r env (Suc i)) (Suc i))"
      by (simp add: page_log_def)
    moreover have "1 \<le> Suc i" "Suc i \<le> 14" using that by simp_all
    ultimately show ?thesis
      using page_log_in_all [of "Suc i" env] logs by blast
  qed
  have others: "written_results ?S =
      filter (\<lambda>r. page r \<noteq> i) (written_results (snd (scrapeNARA env' s')))"
    if reached: "loop_reached env'" "writeApi_r env' = None" "writeResults_r env' = None"
      and same: "list_all (\<lambda>j. j = i \<or> pages_r env' j = pages_r env j) [1..<15]"
  proof -
    have "written_results (snd (scrapeNARA env' s')) = all_entries env'"
      using reached by (rule written_results_run)
    moreover have "all_entries env = filter (\<lambda>r. page r \<noteq> i) (all_entries env')"
      unfolding all_entries_def using none same by (rule entries_without_page)
    ultimately show ?thesis by (simp add: written)
  qed
  from absent logged next_page others show ?thesis by blast
qed

text \<open>Page 7 of 14, against the run in which nothing fails.\<close>

theorem click_failure_drops_only_that_page_witness:
  "loop_reached env_click7 \<and> writeApi_r env_click7 = None \<and> writeResults_r env_click7 = None \<and>
   waitForSelector_r (pages_r env_click7 7) = None \<and>
   click_r (pages_r env_click7 7) = Inl (Error ''Node is detached'') \<and>
   loop_reached env_fine \<and>
   7 \<notin> page ` set (written_results (snd (scrapeNARA env_click7 fresh))) \<and>
   LogPageError 7 ''Node is detached'' \<in> set (console (snd (scrapeNARA env_click7 fresh))) \<and>
   LogProcessing 8 \<in> set (console (snd (scrapeNARA env_click7 fresh))) \<and>
   written_results (snd (scrapeNARA env_click7 fresh)) =
     filter (\<lambda>r. page r \<noteq> 7) (written_results (snd (scrapeNARA env_fine fresh)))"
proof -
  have reached: "loop_reached env_click7" "writeApi_r env_click7 = None"
    "writeResults_r env_click7 = None"
    by (simp_all add: env_click7_def env_fine_def loop_reached_def setup_ok_def)
  have fine: "loop_reached env_fine" "writeApi_r env_fine = None" "writeResults_r env_fine = None"
    by (simp_all add: env_fine_def loop_reached_def setup_ok_def)
  have click: "waitForSelector_r (pages_r env_click7 7) = None"
    "click_r (pages_r env_click7 7) = Inl (Error ''Node is detached'')"
    by (simp_all add: env_click7_def env_fine_def page_fine_def)
  have same: "list_all (\<lambda>j. j = 7 \<or> pages_r env_fine j = pages_r env_click7 j) [1..<15]"
    by (simp add: pages_1_to_14 env_click7_def env_fine_def)
  have "(7::nat) < 14" by simp
  with click_failure_drops_only_that_page
    [OF reached _ _ click, where env' = env_fine and s = fresh and s' = fresh]
    fine same reached click
  show ?thesis by auto
qed

text \<open>
  Claim C2 as stated fails: with the click of page 7 throwing, the file has no entry
  for page 7 with a null image URL and an empty transcription.
\<close>

theorem click_failure_entry_counterexample:
  "\<lparr>page = 7, imageUrl = None, transcription = []\<rparr> \<notin>
     set (written_results (snd (scrapeNARA env_click7 fresh)))"
proof -
  have reached: "loop_reached env_click7" "writeApi_r env_click7 = None"
    "writeResults_r env_click7 = None"
    by (simp_all add: env_click7_def env_fine_def loop_reached_def setup_ok_def)
  have "map page (all_entries env_click7) = filter (\<lambda>i. recorded (pages_r env_click7 i)) [1..<15]"
    unfolding all_entries_def by (rule map_page_entries)
  also have "\<dots> = [1, 2, 3, 4, 5, 6, 8, 9, 10, 11, 12, 13, 14]"
    by (simp add: pages_1_to_14 env_click7_def env_fine_def page_fine_def recorded_def)
  finally have "7 \<notin> set (map page (written_results (snd (scrapeNARA env_click7 fresh))))"
    by (simp add: written_results_run [OF reached])
  then show ?thesis by force
qed

text \<open>
  Claim C9. When the wait, the click and the image read of a page returned and the
  transcription sub-step throws (at the search for the tab, or at the read of the
  text), the iteration does not throw and changes nothing but the console and
  \<open>results\<close>: it logs the failure (line 156), appends the entry of the page with the
  image URL that was read and the empty transcription, and logs lines 165-166. The
  per-page error of line 169 is not logged.
\<close>

theorem transcription_failure_degrades_only_transcription:
  assumes "waitForSelector_r p = None" "click_r p = Inr c" "imageUrl_r p = Inr u"
    and "hasTranscriptionTab_r p = Inl e \<or>
         hasTranscriptionTab_r p = Inr True \<and> transcription_r p = Inl e"
  shows "process_page p i s =
     (Inr (),
      s\<lparr>console := console s @
           [LogProcessing i, LogNoTranscription i, LogImageUrl i (image_text u),
            LogTranscription i ''Not found''],
        results := results s @ [\<lparr>page = i, imageUrl = u, transcription = []\<rparr>]\<rparr>)"
proof -
  from assms(4) have "transcription_failed p" and "transcription_of p = []"
    by (auto simp: transcription_failed_def transcription_of_def)
  with assms(1-3) show ?thesis
    by (simp add: process_page_run page_log_def page_entries_def transcription_text_def)
qed

theorem transcription_failure_degrades_only_transcription_witness:
  "process_page (pages_r env_transcription3 3) 3 fresh =
     (Inr (),
      fresh\<lparr>console := [LogProcessing 3, LogNoTranscription 3, LogImageUrl 3 ''Found'',
                         LogTranscription 3 ''Not found''],
            results := [\<lparr>page = 3,
               imageUrl = Some ''https://s3.amazonaws.com/NARAprodstorage/4159576_00490.jpg'',
               transcription = []\<rparr>]\<rparr>)"
  using transcription_failure_degrades_only_transcription
    [of "pages_r env_transcription3 3" True
        "Some ''https://s3.amazonaws.com/NARAprodstorage/4159576_00490.jpg''"
        "Error ''Execution context was destroyed''" 3 fresh]
  by (simp add: env_transcription3_def env_fine_def page_fine_def image_text_def fresh_def
        initial_def)

section \<open>Top-level failures\<close>

text \<open>
  Claim C7. If the navigation of line 63 throws, the run ends there with that error:
  the console holds the two lines logged so far and no line of the page loop, \<open>results\<close>
  and the files are what they were, and the whole script leaves the files untouched
  too.
\<close>

theorem navigation_failure_writes_nothing:
  assumes "setup_ok env" "goto_r env = Some e"
  shows "scrapeNARA env s =
           (Inl e, s\<lparr>console := console s @ [LogLaunching, LogNavigating], browser := Open,
                     apiResponses := [], awaiting := []\<rparr>) \<and>
         files (snd (scrapeNARA env s)) = files s \<and>
         results (snd (scrapeNARA env s)) = results s \<and>
         files (script env s) = files s"
proof -
  have run: "scrapeNARA env s' =
      (Inl e, s'\<lparr>console := console s' @ [LogLaunching, LogNavigating], browser := Open,
                apiResponses := [], awaiting := []\<rparr>)" for s'
    using assms by (rule scrapeNARA_stops_at_goto)
  have "files (script env s) = files s"
    by (simp add: script_def setup_dirs_def ensure_dir_def bnd_def detached_def try_catch_def
          run attempt_def split: option.splits)
  then show ?thesis by (simp add: run)
qed

theorem navigation_failure_writes_nothing_witness:
  "setup_ok env_goto_timeout \<and>
   goto_r env_goto_timeout = Some (Error ''Navigation timeout of 60000 ms exceeded'') \<and>
   console (snd (scrapeNARA env_goto_timeout fresh)) = [LogLaunching, LogNavigating] \<and>
   files (snd (scrapeNARA env_goto_timeout fresh)) = Map.empty \<and>
   files (script env_goto_timeout fresh) = Map.empty"
  using navigation_failure_writes_nothing
    [of env_goto_timeout "Error ''Navigation timeout of 60000 ms exceeded''" fresh]
  by (simp add: env_goto_timeout_def env_fine_def setup_ok_def fresh_def initial_def)

text \<open>
  Claim C3, as amended. \<open>browser.close()\<close> is the last call of the straight-line path
  (line 182) and nothing closes the browser on the way out of a failure. Starting with
  no closed browser, the session is closed at the end of \<open>scrapeNARA\<close> exactly when
  every top-level step returned: the launch and the page setup, the navigation, the
  metadata read, both file writes and the close itself. What happens inside the page
  loop plays no part.
\<close>

theorem browser_closed_iff_no_top_level_failure:
  assumes "browser s \<noteq> Closed"
  shows "(browser (snd (scrapeNARA env s)) = Closed) =
         (loop_reached env \<and> writeApi_r env = None \<and> writeResults_r env = None \<and>
          close_r env = None)"
  using assms by (auto simp: browser_after_run loop_reached_def setup_ok_def)

theorem browser_closed_iff_no_top_level_failure_witness:
  "browser fresh \<noteq> Closed \<and> browser (snd (scrapeNARA env_click7 fresh)) = Closed"
  using browser_closed_iff_no_top_level_failure [of fresh env_click7]
  by (simp add: env_click7_def env_fine_def loop_reached_def setup_ok_def fresh_def initial_def)

text \<open>
  Claim C3 as stated fails: when the navigation times out, the script ends with the
  browser session open.
\<close>

theorem browser_left_open_counterexample:
  "browser (script env_goto_timeout fresh) = Open"
proof -
  have "setup_ok env_goto_timeout"
    and "goto_r env_goto_timeout = Some (Error ''Navigation timeout of 60000 ms exceeded'')"
    by (simp_all add: env_goto_timeout_def env_fine_def setup_ok_def)
  then have run: "scrapeNARA env_goto_timeout s =
      (Inl (Error ''Navigation timeout of 60000 ms exceeded''),
       s\<lparr>console := console s @ [LogLaunching, LogNavigating], browser := Open,
         apiResponses := [], awaiting := []\<rparr>)" for s
    by (rule scrapeNARA_stops_at_goto)
  have mk: "mkdir_r env_goto_timeout d = None" for d
    by (simp add: env_goto_timeout_def env_fine_def)
  show ?thesis
    by (simp add: script_def setup_dirs_def ensure_dir_def bnd_def detached_def try_catch_def
          run mk fresh_def initial_def)
qed

text \<open>
  Claim C4, as amended. Line 186 handles the rejection of \<open>scrapeNARA()\<close> with
  \<open>console.error\<close>, so a failure inside \<open>scrapeNARA\<close> is logged and is not unhandled: the
  exit status stays zero, as on reaching the end of the script. Started with nothing
  unhandled, the script ends with status zero exactly when the creation of the output
  directories (lines 11-12) did not throw; and when \<open>scrapeNARA\<close> then fails with \<open>e\<close>,
  the script ends in the state \<open>scrapeNARA\<close> left, with \<open>e\<close> logged last.
\<close>

theorem handled_rejection_exits_zero:
  assumes "unhandled s = []"
  shows "((exit_status (script env s) = 0) = (fst (setup_dirs env s) = Inr ())) \<and>
         (\<forall>s1 e s2. setup_dirs env s = (Inr (), s1) \<and> scrapeNARA env s1 = (Inl e, s2) \<longrightarrow>
            script env s = s2\<lparr>console := console s2 @ [LogConsoleError e]\<rparr>)"
proof -
  have dirs_unhandled: "unhandled (snd (setup_dirs env s)) = []"
    using assms
    by (simp add: setup_dirs_def ensure_dir_def bnd_def attempt_def split: option.splits)
  have status: "(exit_status (script env s) = 0) = (fst (setup_dirs env s) = Inr ())"
  proof (cases "setup_dirs env s")
    case (Pair r s1)
    with dirs_unhandled have s1: "unhandled s1 = []" by simp
    show ?thesis
    proof (cases r)
      case (Inl e)
      with Pair show ?thesis by (simp add: script_def exit_status_def)
    next
      case (Inr u)
      obtain r2 s2 where run: "scrapeNARA env s1 = (r2, s2)"
        by (cases "scrapeNARA env s1")
      have "unhandled s2 = []"
        using scrapeNARA_unhandled [of env s1] run s1 by simp
      with Pair Inr run show ?thesis
        by (cases r2) (simp_all add: script_def exit_status_def detached_def try_catch_def)
    qed
  qed
  have logged: "script env s = s2\<lparr>console := console s2 @ [LogConsoleError e]\<rparr>"
    if "setup_dirs env s = (Inr (), s1)" "scrapeNARA env s1 = (Inl e, s2)" for s1 e s2
    using that by (simp add: script_def detached_def try_catch_def)
  from status logged show ?thesis by blast
qed

theorem handled_rejection_exits_zero_witness:
  "unhandled fresh = [] \<and>
   exit_status (script env_goto_timeout fresh) = 0 \<and>
   console (script env_goto_timeout fresh) =
     [LogLaunching, LogNavigating,
      LogConsoleError (Error ''Navigation timeout of 60000 ms exceeded'')]"
proof -
  let ?s1 = "fresh\<lparr>dirs := {''./transcriptions'', ''./images''}\<rparr>"
  let ?e = "Error ''Navigation timeout of 60000 ms exceeded''"
  let ?s2 = "?s1\<lparr>console := console ?s1 @ [LogLaunching, LogNavigating], browser := Open,
      apiResponses := [], awaiting := []\<rparr>"
  have fresh: "unhandled fresh = []"
    by (simp add: fresh_def initial_def)
  have dirs: "setup_dirs env_goto_timeout fresh = (Inr (), ?s1)"
    by (simp add: setup_dirs_def ensure_dir_def bnd_def env_goto_timeout_def env_fine_def
          fresh_def initial_def)
  have "setup_ok env_goto_timeout" and "goto_r env_goto_timeout = Some ?e"
    by (simp_all add: env_goto_timeout_def env_fine_def setup_ok_def)
  then have run: "scrapeNARA env_goto_timeout ?s1 = (Inl ?e, ?s2)"
    by (rule scrapeNARA_stops_at_goto)
  note inst = handled_rejection_exits_zero [OF fresh, of env_goto_timeout]
  from inst dirs have status: "exit_status (script env_goto_timeout fresh) = 0"
    by simp
  from inst dirs run
  have "script env_goto_timeout fresh = ?s2\<lparr>console := console ?s2 @ [LogConsoleError ?e]\<rparr>"
    by blast
  then have "console (script env_goto_timeout fresh) =
      [LogLaunching, LogNavigating, LogConsoleError ?e]"
    by (simp add: fresh_def initial_def)
  with fresh status show ?thesis by simp
qed

text \<open>
  Claim C4 as stated fails: when the browser cannot be launched, the error is logged
  and the exit status is zero.
\<close>

theorem launch_failure_exit_status_counterexample:
  "exit_status (script env_launch_fails fresh) = 0 \<and>
   console (script env_launch_fails fresh) =
     [LogLaunching, LogConsoleError (Error ''Failed to launch the browser process'')]"
  by (simp add: script_def setup_dirs_def ensure_dir_def bnd_def detached_def try_catch_def
        scrapeNARA_def exit_status_def fresh_def initial_def env_launch_fails_def env_fine_def)


section \<open>The capture sequence\<close>

text \<open>
  Claim C5. When the body promise of a response settles with a rejection, the resumed
  invocation of the listener ends in its empty catch block: the state is the one
  before, less the invocation that was suspended. Nothing is appended to
  \<open>apiResponses\<close>, nothing is logged, nothing is left unhandled. In particular, a
  matching response whose body does not parse, handled from dispatch to settlement,
  leaves the state exactly as it was.
\<close>

theorem unparsable_body_is_skipped_silently:
  "on_event (Json k (Inl e)) s = s\<lparr>awaiting := filter (\<lambda>p. fst p \<noteq> k) (awaiting s)\<rparr> \<and>
   (matches u \<and> k \<notin> fst ` set (awaiting s) \<longrightarrow>
      deliver [Response k u, Json k (Inl e)] s = s)"
proof -
  have "filter (\<lambda>p. fst p \<noteq> k) (awaiting s) = awaiting s" if "map_of (awaiting s) k = None"
    using that by (auto simp: filter_id_conv map_of_eq_None_iff)
  then have step: "on_event (Json k (Inl e)) s = s\<lparr>awaiting := filter (\<lambda>p. fst p \<noteq> k) (awaiting s)\<rparr>"
    by (simp add: on_event_Json split: option.splits)
  have "deliver [Response k u, Json k (Inl e)] s = s" if "matches u" "k \<notin> fst ` set (awaiting s)"
  proof -
    have keep: "filter (\<lambda>p. fst p \<noteq> k) (awaiting s) = awaiting s"
      using that(2) by (auto simp: filter_id_conv)
    have "map_of (awaiting s) k = None"
      using that(2) by (simp add: map_of_eq_None_iff)
    then have "map_of (awaiting s @ [(k, u)]) k = Some u"
      by (simp add: map_add_def)
    then show ?thesis
      using that(1) keep by (simp add: on_event_Json del: map_of_append)
  qed
  with step show ?thesis by blast
qed

theorem unparsable_body_is_skipped_silently_witness:
  "matches ''https://catalog.archives.gov/proxy/v3/records/search'' \<and>
   deliver trace_not_json fresh = fresh"
  using unparsable_body_is_skipped_silently
    [of 0 "Error ''Unexpected token < in JSON at position 0''" fresh
        "''https://catalog.archives.gov/proxy/v3/records/search''"]
    matches_records
  by (simp add: trace_not_json_def fresh_def initial_def del: deliver_Cons)

text \<open>
  Claim C6, as amended. The listener pushes after \<open>await response.json()\<close>, so an entry
  is appended when the body of its response has been parsed, not when the response
  arrives. On every run that writes \<open>api_responses.json\<close>, the file holds the capture
  sequence of the trace; every entry has a URL that matches one of the three
  substrings, so a response with another URL never appears; and on a well-formed
  trace the entries are those of the matching responses whose body parsed, in the
  order in which the body promises settled.
\<close>

theorem capture_file_in_settlement_order:
  assumes "loop_reached env" "writeApi_r env = None"
  shows "files (snd (scrapeNARA env s)) ''api_responses.json'' =
           Some (ApiResponsesJson (capture (network env))) \<and>
         (\<forall>c \<in> set (capture (network env)). matches (url c)) \<and>
         (well_formed (network env) \<longrightarrow> capture (network env) = settle_order (network env))"
  using api_file [OF assms] capture_matches capture_settle_order by blast

theorem capture_file_in_settlement_order_witness:
  "loop_reached env_overtaken \<and> writeApi_r env_overtaken = None \<and>
   well_formed (network env_overtaken) \<and>
   written_api (snd (scrapeNARA env_overtaken fresh)) =
     [\<lparr>url = ''https://catalog.archives.gov/proxy/contributions/targetNaId/54928953'', data = 11\<rparr>,
      \<lparr>url = ''https://catalog.archives.gov/proxy/v3/records/search'', data = 10\<rparr>]"
proof -
  have reached: "loop_reached env_overtaken" "writeApi_r env_overtaken = None"
    by (simp_all add: env_overtaken_def env_fine_def loop_reached_def setup_ok_def)
  have net: "network env_overtaken = trace_overtaken"
    by (simp add: env_overtaken_def env_fine_def)
  have formed: "well_formed trace_overtaken"
    by (simp add: well_formed_def trace_overtaken_def)
  have order: "settle_order trace_overtaken =
     [\<lparr>url = ''https://catalog.archives.gov/proxy/contributions/targetNaId/54928953'', data = 11\<rparr>,
      \<lparr>url = ''https://catalog.archives.gov/proxy/v3/records/search'', data = 10\<rparr>]"
    by (simp add: settle_order_def trace_overtaken_def matches_records matches_contributions)
  from capture_file_in_settlement_order [OF reached, of fresh] formed order reached
  show ?thesis by (simp add: net written_api_def)
qed

text \<open>
  Claim C6 as stated fails: two matching responses arrive, the body of the second is
  parsed first, and the file lists the second before the first.
\<close>

theorem capture_not_in_arrival_order_counterexample:
  "written_api (snd (scrapeNARA env_overtaken fresh)) \<noteq> arrival_order (network env_overtaken)"
proof -
  have reached: "loop_reached env_overtaken" "writeApi_r env_overtaken = None"
    by (simp_all add: env_overtaken_def env_fine_def loop_reached_def setup_ok_def)
  have net: "network env_overtaken = trace_overtaken"
    by (simp add: env_overtaken_def env_fine_def)
  have formed: "well_formed trace_overtaken"
    by (simp add: well_formed_def trace_overtaken_def)
  have "written_api (snd (scrapeNARA env_overtaken fresh)) = settle_order trace_overtaken"
    by (simp add: written_api_def api_file [OF reached] net capture_settle_order [OF formed])
  moreover have "settle_order trace_overtaken \<noteq> arrival_order trace_overtaken"
    by (simp add: settle_order_def arrival_order_def trace_overtaken_def matches_records
          matches_contributions)
  ultimately show ?thesis by (simp add: net)
qed


section \<open>The download helper\<close>




text \<open>
  Claim C8 is not met by the code. The only failure that \<open>downloadFile\<close> listens for
  is the \<open>error\<close> event of the request. When the response stream closes early without
  that event, nothing unlinks the file and nothing settles the promise: the bytes
  received so far stay under \<open>filepath\<close> and the caller is never told.
\<close>

theorem interrupted_download_keeps_partial_file:
  "promise (downloadFile ''http://host/a.jpg'' ''images/a.jpg'' None trace_interrupted Map.empty) =
     Pending \<and>
   disk (downloadFile ''http://host/a.jpg'' ''images/a.jpg'' None trace_interrupted Map.empty)
     ''images/a.jpg'' = Some ''JFIF''"
  by (simp add: downloadFile_def download_start_def dispatch_def write_bytes_def
        trace_interrupted_def)

end
